theory Spec2Isabelle
  imports Main "HOL-Library.Multiset" "HOL-Library.List_Lexorder"
begin

section \<open>Data model of simple-possibilities.py\<close>

text \<open>
  The exceptions the source can raise: \<open>zip(..., strict=True)\<close> raises ValueError when its
  arguments do not end together, and a list item assignment raises IndexError out of range.
\<close>

datatype error = ValueError | IndexError

text \<open>
  class GameState: two lists of flags, \<open>_front_row\<close> (is flipped in front) and
  \<open>_back_row\<close> (is flipped in back).
\<close>

record GameState =
  front_row :: "bool list"
  back_row :: "bool list"

text \<open>\<open>GameState.__init__\<close>: both rows are \<open>[False] * 12\<close>.\<close>

definition GameState_init :: GameState where
  "GameState_init = \<lparr>front_row = replicate 12 False, back_row = replicate 12 False\<rparr>"

text \<open>
  \<open>xs[i] = v\<close> on a Python list: an index in \<open>[0, len)\<close> is updated, an index in
  \<open>[-len, 0)\<close> counts from the end, anything else raises IndexError.
\<close>

definition setitem :: "bool list \<Rightarrow> int \<Rightarrow> bool \<Rightarrow> error + bool list" where
  "setitem xs i v =
     (if 0 \<le> i \<and> i < int (length xs) then Inr (xs[nat i := v])
      else if - int (length xs) \<le> i \<and> i < 0 then Inr (xs[nat (int (length xs) + i) := v])
      else Inl IndexError)"

text \<open>\<open>vals = range(1, 13)\<close>.\<close>

definition vals :: "int list" where
  "vals = [1..12]"

text \<open>
  \<open>zip(vals, front, back, strict=True)\<close> yields the triples up to the shortest argument;
  when the arguments do not all end together, ValueError is raised after the last triple.
\<close>

definition zip_items :: "int list \<Rightarrow> bool list \<Rightarrow> bool list \<Rightarrow> (int \<times> bool \<times> bool) list" where
  "zip_items vs fs bs = zip vs (zip fs bs)"

definition zip_strict_ok :: "int list \<Rightarrow> bool list \<Rightarrow> bool list \<Rightarrow> bool" where
  "zip_strict_ok vs fs bs \<longleftrightarrow> length fs = length vs \<and> length bs = length vs"

text \<open>
  The three statements of \<open>recur_helper\<close> that build \<open>new_state\<close>: a deep copy of
  \<open>state\<close> in which the back flag of tile \<open>val\<close> is set when \<open>front_flipped\<close> holds, and
  its front flag otherwise.
\<close>

definition flip_tile :: "GameState \<Rightarrow> int \<Rightarrow> bool \<Rightarrow> error + GameState" where
  "flip_tile state val front_flipped =
     (if front_flipped
      then (case setitem (back_row state) (val - 1) True of
              Inl e \<Rightarrow> Inl e
            | Inr b \<Rightarrow> Inr (state\<lparr>back_row := b\<rparr>))
      else (case setitem (front_row state) (val - 1) True of
              Inl e \<Rightarrow> Inl e
            | Inr f \<Rightarrow> Inr (state\<lparr>front_row := f\<rparr>)))"

text \<open>
  \<open>recur_helper\<close>, the closure of \<open>get_next_states\<close>. The captured \<open>self\<close> is the first
  argument and the captured list \<open>result\<close> is threaded through: the call returns the list
  after its appends, or the exception that ended it. The loop reads the flags of
  \<open>self\<close>, and sets the flag in the copy of \<open>state\<close>.
\<close>

function recur_helper ::
  "GameState \<Rightarrow> int \<Rightarrow> GameState \<Rightarrow> GameState list \<Rightarrow> error + GameState list" where
  "recur_helper self roll_remaining state result =
     (if roll_remaining = 0 then Inr (result @ [state])
      else
        (case fold
           (\<lambda>(val, front_flipped, back_flipped) acc.
              case acc of
                Inl e \<Rightarrow> Inl e
              | Inr res \<Rightarrow>
                  if front_flipped \<and> back_flipped then Inr res
                  else if roll_remaining - val \<ge> 0 then
                    (case flip_tile state val front_flipped of
                       Inl e \<Rightarrow> Inl e
                     | Inr new_state \<Rightarrow> recur_helper self (roll_remaining - val) new_state res)
                  else Inr res)
           (zip_items vals (front_row self) (back_row self))
           (Inr result)
         of
           Inl e \<Rightarrow> Inl e
         | Inr res \<Rightarrow>
             if zip_strict_ok vals (front_row self) (back_row self) then Inr res
             else Inl ValueError))"
  by pat_completeness auto

termination
proof (relation "measure (\<lambda>(self, roll_remaining, state, result). nat roll_remaining)")
  show "wf (measure (\<lambda>(self, roll_remaining, state, result). nat roll_remaining))"
    by simp
next
  fix self :: GameState and roll_remaining :: int and state :: GameState
    and result :: "GameState list" and x :: "int \<times> bool \<times> bool"
    and xa :: "error + GameState list" and val :: int and y :: "bool \<times> bool"
    and front_flipped back_flipped :: bool and res :: "GameState list"
    and new_state :: GameState
  assume "x \<in> set (zip_items vals (front_row self) (back_row self))"
    and "(val, y) = x" and "0 \<le> roll_remaining - val"
  then have "val \<in> set vals"
    by (auto simp: zip_items_def dest: set_zip_leftD)
  then have "1 \<le> val"
    by (simp add: vals_def)
  with \<open>0 \<le> roll_remaining - val\<close>
  show "((self, roll_remaining - val, new_state, res), (self, roll_remaining, state, result))
        \<in> measure (\<lambda>(self, roll_remaining, state, result). nat roll_remaining)"
    by simp
qed

text \<open>\<open>GameState.get_next_states\<close>: \<open>result\<close> starts empty and \<open>recur_helper(roll, self)\<close> fills it.\<close>

definition get_next_states :: "GameState \<Rightarrow> int \<Rightarrow> error + GameState list" where
  "get_next_states self roll = recur_helper self roll self []"

text \<open>\<open>GameState.is_won\<close>: \<open>all(self._front_row) and all(self._back_row)\<close>.\<close>

definition is_won :: "GameState \<Rightarrow> bool" where
  "is_won self \<longleftrightarrow> list_all (\<lambda>b. b) (front_row self) \<and> list_all (\<lambda>b. b) (back_row self)"

text \<open>
  \<open>dice_rolls(num_sides)\<close>: \<open>a + b\<close> for every pair of \<open>itertools.product\<close>
  of \<open>range(1, num_sides + 1)\<close> with itself, the first face varying slowest.
\<close>

definition dice_rolls :: "int \<Rightarrow> int list" where
  "dice_rolls num_sides =
     map (\<lambda>(a, b). a + b) (List.product [1..num_sides] [1..num_sides])"

text \<open>The dataclass \<open>AllGamesResult\<close> and its \<open>__add__\<close>.\<close>

record AllGamesResult =
  num_won :: int
  num_lost :: int

definition add :: "AllGamesResult \<Rightarrow> AllGamesResult \<Rightarrow> AllGamesResult" where
  "add self other =
     \<lparr>num_won = num_won self + num_won other, num_lost = num_lost self + num_lost other\<rparr>"

text \<open>
  \<open>find_all_games\<close>. An exception raised by \<open>get_next_states\<close> or by a recursive call ends
  both iterations and is the result. Its termination is proved below, once the successors
  are characterised.
\<close>

function find_all_games :: "GameState \<Rightarrow> error + AllGamesResult" where
  "find_all_games state =
     (if is_won state then Inr \<lparr>num_won = 1, num_lost = 0\<rparr>
      else
        fold
          (\<lambda>roll acc.
             case acc of
               Inl e \<Rightarrow> Inl e
             | Inr result \<Rightarrow>
                 (case get_next_states state roll of
                    Inl e \<Rightarrow> Inl e
                  | Inr next_states \<Rightarrow>
                      fold
                        (\<lambda>next_state acc'.
                           case acc' of
                             Inl e \<Rightarrow> Inl e
                           | Inr result' \<Rightarrow>
                               (case find_all_games next_state of
                                  Inl e \<Rightarrow> Inl e
                                | Inr games \<Rightarrow> Inr (add result' games)))
                        next_states
                        (Inr (if next_states = []
                              then add result \<lparr>num_won = 0, num_lost = 1\<rparr>
                              else result))))
          (dice_rolls 6)
          (Inr \<lparr>num_won = 0, num_lost = 0\<rparr>))"
  by pat_completeness auto

section \<open>Notions used to state the properties\<close>

text \<open>A state as the constructor builds it: twelve flags in each row.\<close>

definition well_formed :: "GameState \<Rightarrow> bool" where
  "well_formed s \<longleftrightarrow> length (front_row s) = 12 \<and> length (back_row s) = 12"

text \<open>The flags not yet set: the flip transitions a state has left.\<close>

definition flips_remaining :: "GameState \<Rightarrow> nat" where
  "flips_remaining s = count_list (front_row s) False + count_list (back_row s) False"

text \<open>
  A copy of \<open>recur_helper\<close> with one ghost argument, the tile values selected so far on
  the way from \<open>get_next_states\<close> to the current call: each recorded state comes with the
  selection path that produced it. Nothing else differs from \<open>recur_helper\<close>.
\<close>

function recur_paths ::
  "GameState \<Rightarrow> int \<Rightarrow> GameState \<Rightarrow> int list \<Rightarrow> (int list \<times> GameState) list
     \<Rightarrow> error + (int list \<times> GameState) list" where
  "recur_paths self roll_remaining state path result =
     (if roll_remaining = 0 then Inr (result @ [(path, state)])
      else
        (case fold
           (\<lambda>(val, front_flipped, back_flipped) acc.
              case acc of
                Inl e \<Rightarrow> Inl e
              | Inr res \<Rightarrow>
                  if front_flipped \<and> back_flipped then Inr res
                  else if roll_remaining - val \<ge> 0 then
                    (case flip_tile state val front_flipped of
                       Inl e \<Rightarrow> Inl e
                     | Inr new_state \<Rightarrow>
                         recur_paths self (roll_remaining - val) new_state (path @ [val]) res)
                  else Inr res)
           (zip_items vals (front_row self) (back_row self))
           (Inr result)
         of
           Inl e \<Rightarrow> Inl e
         | Inr res \<Rightarrow>
             if zip_strict_ok vals (front_row self) (back_row self) then Inr res
             else Inl ValueError))"
  by pat_completeness auto

termination
proof (relation "measure (\<lambda>(self, roll_remaining, state, path, result). nat roll_remaining)")
  show "wf (measure (\<lambda>(self, roll_remaining, state, path, result). nat roll_remaining))"
    by simp
next
  fix self :: GameState and roll_remaining :: int and state :: GameState
    and path :: "int list" and result :: "(int list \<times> GameState) list"
    and x :: "int \<times> bool \<times> bool" and val :: int and y :: "bool \<times> bool"
    and res :: "(int list \<times> GameState) list" and new_state :: GameState
  assume "x \<in> set (zip_items vals (front_row self) (back_row self))"
    and "(val, y) = x" and "0 \<le> roll_remaining - val"
  then have "val \<in> set vals"
    by (auto simp: zip_items_def dest: set_zip_leftD)
  then have "1 \<le> val"
    by (simp add: vals_def)
  with \<open>0 \<le> roll_remaining - val\<close>
  show "((self, roll_remaining - val, new_state, path @ [val], res),
         (self, roll_remaining, state, path, result))
        \<in> measure (\<lambda>(self, roll_remaining, state, path, result). nat roll_remaining)"
    by simp
qed

text \<open>The selection paths of \<open>get_next_states\<close>, each with the state it records.\<close>

definition selection_paths :: "GameState \<Rightarrow> int \<Rightarrow> error + (int list \<times> GameState) list" where
  "selection_paths self roll = recur_paths self roll self [] []"

text \<open>
  What one pass of the loop body does to a well-formed \<open>state\<close> for tile \<open>val\<close>: the flag
  of \<open>self\<close> decides which row of \<open>state\<close> is set.
\<close>

definition flip_at :: "GameState \<Rightarrow> GameState \<Rightarrow> int \<Rightarrow> GameState" where
  "flip_at self state val =
     (if front_row self ! nat (val - 1)
      then state\<lparr>back_row := (back_row state)[nat (val - 1) := True]\<rparr>
      else state\<lparr>front_row := (front_row state)[nat (val - 1) := True]\<rparr>)"

text \<open>The state a selection path leads to.\<close>

definition apply_path :: "GameState \<Rightarrow> GameState \<Rightarrow> int list \<Rightarrow> GameState" where
  "apply_path self state q = foldl (flip_at self) state q"

text \<open>The tiles the loop does not skip: not flipped on both sides in \<open>self\<close>.\<close>

definition selectable :: "GameState \<Rightarrow> int \<Rightarrow> bool" where
  "selectable self val \<longleftrightarrow>
     1 \<le> val \<and> val \<le> 12 \<and> \<not> (front_row self ! nat (val - 1) \<and> back_row self ! nat (val - 1))"

text \<open>
  The sequences of tile values the recursion runs through for a roll, in the order of the
  depth-first search; it is proved below to be what \<open>recur_paths\<close> records.
\<close>

function selections :: "GameState \<Rightarrow> int \<Rightarrow> int list list" where
  "selections self r =
     (if r = 0 then [[]]
      else concat (map (\<lambda>val. if selectable self val \<and> val \<le> r
                                then map ((#) val) (selections self (r - val)) else [])
                       vals))"
  by pat_completeness auto

termination
  by (relation "measure (\<lambda>(self, r). nat r)") (auto simp: selectable_def)

text \<open>Every flag set in \<open>s\<close> is set in \<open>s'\<close>, row by row.\<close>

definition flags_subset :: "GameState \<Rightarrow> GameState \<Rightarrow> bool" where
  "flags_subset s s' \<longleftrightarrow>
     list_all2 (\<lambda>a b. a \<longrightarrow> b) (front_row s) (front_row s') \<and>
     list_all2 (\<lambda>a b. a \<longrightarrow> b) (back_row s) (back_row s')"

text \<open>A tile is flipped in back only if it is flipped in front.\<close>

definition front_before_back :: "GameState \<Rightarrow> bool" where
  "front_before_back s \<longleftrightarrow> list_all2 (\<lambda>f b. b \<longrightarrow> f) (front_row s) (back_row s)"

text \<open>
  The successors and the tally as plain values, for states on which nothing is raised:
  the list \<open>get_next_states\<close> returns and the result \<open>find_all_games\<close> returns.
\<close>

definition expand :: "GameState \<Rightarrow> int \<Rightarrow> GameState list" where
  "expand s roll = (case get_next_states s roll of Inl e \<Rightarrow> [] | Inr next_states \<Rightarrow> next_states)"

definition countAllGames :: "GameState \<Rightarrow> AllGamesResult" where
  "countAllGames s =
     (case find_all_games s of Inl e \<Rightarrow> \<lparr>num_won = 0, num_lost = 0\<rparr> | Inr games \<Rightarrow> games)"

text \<open>The sum of a list of results, accumulated as \<open>result += r\<close> does.\<close>

definition add_all :: "AllGamesResult list \<Rightarrow> AllGamesResult" where
  "add_all rs = fold (\<lambda>r acc. add acc r) rs \<lparr>num_won = 0, num_lost = 0\<rparr>"

text \<open>
  What one dice outcome adds to the accumulator of \<open>find_all_games\<close>: one loss when
  there is no successor, and otherwise the tally of every successor.
\<close>

definition roll_outcome :: "GameState \<Rightarrow> int \<Rightarrow> AllGamesResult" where
  "roll_outcome s roll =
     (if expand s roll = [] then \<lparr>num_won = 0, num_lost = 1\<rparr>
      else add_all (map countAllGames (expand s roll)))"

section \<open>What \<open>get_next_states\<close> computes\<close>

declare selections.simps [simp del]
declare recur_helper.simps [simp del]
declare recur_paths.simps [simp del]

lemma zip_items_well_formed:
  assumes "well_formed self"
  shows "zip_items vals (front_row self) (back_row self) =
         map (\<lambda>v. (v, front_row self ! nat (v - 1), back_row self ! nat (v - 1))) vals"
proof (rule nth_equalityI)
  show "length (zip_items vals (front_row self) (back_row self)) =
        length (map (\<lambda>v. (v, front_row self ! nat (v - 1), back_row self ! nat (v - 1))) vals)"
    using assms by (simp add: zip_items_def well_formed_def vals_def)
next
  fix i assume "i < length (zip_items vals (front_row self) (back_row self))"
  then have i: "i < 12"
    using assms by (simp add: zip_items_def well_formed_def vals_def)
  then have "vals ! i = int i + 1"
    by (simp add: vals_def)
  with i show "zip_items vals (front_row self) (back_row self) ! i =
      map (\<lambda>v. (v, front_row self ! nat (v - 1), back_row self ! nat (v - 1))) vals ! i"
    using assms by (simp add: zip_items_def well_formed_def vals_def)
qed

lemma fold_sum_concat:
  assumes "\<And>x res. x \<in> set xs \<Longrightarrow> f x (Inr res) = Inr (res @ g x)"
  shows "fold f xs (Inr res) = Inr (res @ concat (map g xs))"
  using assms by (induction xs arbitrary: res) auto

lemma flip_tile_well_formed:
  assumes "well_formed state" "1 \<le> val" "val \<le> 12"
  shows "flip_tile state val (front_row self ! nat (val - 1)) = Inr (flip_at self state val)"
  using assms by (simp add: flip_tile_def flip_at_def setitem_def well_formed_def)

lemma well_formed_flip_at: "well_formed state \<Longrightarrow> well_formed (flip_at self state val)"
  by (simp add: flip_at_def well_formed_def)

lemma vals_range: "v \<in> set vals \<longleftrightarrow> 1 \<le> v \<and> v \<le> 12"
  by (auto simp: vals_def)

lemma recur_paths_selections:
  "well_formed self \<Longrightarrow> well_formed state \<Longrightarrow>
   recur_paths self r state path res =
     Inr (res @ map (\<lambda>q. (path @ q, apply_path self state q)) (selections self r))"
proof (induction self r arbitrary: state path res rule: selections.induct)
  case (1 self r)
  show ?case
  proof (cases "r = 0")
    case True
    then show ?thesis
      by (simp add: recur_paths.simps selections.simps apply_path_def)
  next
    case False
    let ?g = "\<lambda>v. if selectable self v \<and> v \<le> r
               then map (\<lambda>q. (path @ v # q, apply_path self (flip_at self state v) q))
                        (selections self (r - v))
               else []"
    let ?f = "\<lambda>(val, front_flipped, back_flipped) acc.
              case acc of
                Inl e \<Rightarrow> Inl e
              | Inr res \<Rightarrow>
                  if front_flipped \<and> back_flipped then Inr res
                  else if r - val \<ge> 0 then
                    (case flip_tile state val front_flipped of
                       Inl e \<Rightarrow> Inl e
                     | Inr new_state \<Rightarrow>
                         recur_paths self (r - val) new_state (path @ [val]) res)
                  else Inr res"
    let ?h = "\<lambda>v. (v, front_row self ! nat (v - 1), back_row self ! nat (v - 1))"
    have step: "?f (?h v) (Inr res') = Inr (res' @ ?g v)" if "v \<in> set vals" for v res'
    proof -
      from that have v: "1 \<le> v" "v \<le> 12" by (simp_all add: vals_range)
      show ?thesis
      proof (cases "selectable self v \<and> v \<le> r")
        case True
        have "recur_paths self (r - v) (flip_at self state v) (path @ [v]) res' =
              Inr (res' @ map (\<lambda>q. ((path @ [v]) @ q, apply_path self (flip_at self state v) q))
                     (selections self (r - v)))"
          using "1.IH" [OF False that True "1.prems"(1) well_formed_flip_at [OF "1.prems"(2)]] .
        with True v show ?thesis
          by (auto simp: flip_tile_well_formed [OF "1.prems"(2)] selectable_def)
      next
        case nsel: False
        with v show ?thesis
          by (auto simp: selectable_def)
      qed
    qed
    have "fold ?f (map ?h vals) (Inr res) = Inr (res @ concat (map (\<lambda>x. ?g (fst x)) (map ?h vals)))"
    proof (rule fold_sum_concat)
      fix x res'
      assume "x \<in> set (map ?h vals)"
      then obtain v where v: "v \<in> set vals" and x: "x = ?h v"
        by auto
      show "?f x (Inr res') = Inr (res' @ ?g (fst x))"
        unfolding x fst_conv by (rule step [OF v])
    qed
    then have fold_eq: "fold ?f (zip_items vals (front_row self) (back_row self)) (Inr res) =
        Inr (res @ concat (map ?g vals))"
      by (simp add: zip_items_well_formed [OF "1.prems"(1)] comp_def cong: if_cong)
    have sel: "map (\<lambda>q. (path @ q, apply_path self state q)) (selections self r) =
        concat (map ?g vals)"
      using False
      by (subst selections.simps)
        (auto simp: map_concat comp_def apply_path_def intro!: arg_cong [where f = concat])
    have ok: "zip_strict_ok vals (front_row self) (back_row self)"
      using "1.prems"(1) by (simp add: zip_strict_ok_def well_formed_def vals_def)
    show ?thesis
      using False by (subst recur_paths.simps) (simp add: fold_eq sel ok)
  qed
qed

lemma fold_related:
  assumes "\<And>x a b. x \<in> set xs \<Longrightarrow> R a b \<Longrightarrow> R (f x a) (g x b)" and "R a b"
  shows "R (fold f xs a) (fold g xs b)"
  using assms by (induction xs arbitrary: a b) auto

lemma recur_helper_recur_paths:
  "recur_helper self r state (map snd res) =
     map_sum id (map snd) (recur_paths self r state path res)"
proof (induction self r state path res rule: recur_paths.induct)
  case (1 self r state path result)
  show ?case
  proof (cases "r = 0")
    case True
    then show ?thesis
      by (simp add: recur_helper.simps recur_paths.simps)
  next
    case False
    let ?R = "\<lambda>a b. a = map_sum id (map snd) b"
    let ?f = "\<lambda>(val, front_flipped, back_flipped) acc.
              case acc of
                Inl e \<Rightarrow> Inl e
              | Inr res \<Rightarrow>
                  if front_flipped \<and> back_flipped then Inr res
                  else if r - val \<ge> 0 then
                    (case flip_tile state val front_flipped of
                       Inl e \<Rightarrow> Inl e
                     | Inr new_state \<Rightarrow> recur_helper self (r - val) new_state res)
                  else Inr res"
    let ?g = "\<lambda>(val, front_flipped, back_flipped) acc.
              case acc of
                Inl e \<Rightarrow> Inl e
              | Inr res \<Rightarrow>
                  if front_flipped \<and> back_flipped then Inr res
                  else if r - val \<ge> 0 then
                    (case flip_tile state val front_flipped of
                       Inl e \<Rightarrow> Inl e
                     | Inr new_state \<Rightarrow>
                         recur_paths self (r - val) new_state (path @ [val]) res)
                  else Inr res"
    let ?items = "zip_items vals (front_row self) (back_row self)"
    have "?R (fold ?f ?items (Inr (map snd result))) (fold ?g ?items (Inr result))"
    proof (rule fold_related [where R = ?R])
      show "?R (Inr (map snd result)) (Inr result)"
        by simp
    next
      fix x and a :: "error + GameState list" and b :: "error + (int list \<times> GameState) list"
      assume x: "x \<in> set ?items" and ab: "?R a b"
      obtain val f bk where xe: "x = (val, f, bk)"
        by (cases x) auto
      show "?R (?f x a) (?g x b)"
      proof (cases b)
        case (Inl e)
        with ab xe show ?thesis by simp
      next
        case (Inr resb)
        with ab have a: "a = Inr (map snd resb)" by simp
        show ?thesis
        proof (cases "\<not> (f \<and> bk) \<and> 0 \<le> r - val")
          case go: True
          show ?thesis
          proof (cases "flip_tile state val f")
            case (Inl e)
            with go xe a Inr show ?thesis by auto
          next
            case new: (Inr new_state)
            have "recur_helper self (r - val) new_state (map snd resb) =
                  map_sum id (map snd) (recur_paths self (r - val) new_state (path @ [val]) resb)"
              using go by (intro "1.IH" [OF False x xe [symmetric] refl _ _ new]) auto
            with go xe a Inr new show ?thesis by auto
          qed
        next
          case False
          with xe a Inr show ?thesis by auto
        qed
      qed
    qed
    then show ?thesis
      using False
      by (subst recur_helper.simps, subst recur_paths.simps) (auto split: sum.splits)
  qed
qed

lemma get_next_states_selection_paths:
  "get_next_states self roll = map_sum id (map snd) (selection_paths self roll)"
  using recur_helper_recur_paths [of self roll self "[]" "[]"]
  by (simp add: get_next_states_def selection_paths_def)

lemma selection_paths_well_formed:
  "well_formed self \<Longrightarrow>
   selection_paths self roll = Inr (map (\<lambda>q. (q, apply_path self self q)) (selections self roll))"
  using recur_paths_selections [of self self roll "[]" "[]"]
  by (simp add: selection_paths_def)

lemma get_next_states_well_formed:
  "well_formed self \<Longrightarrow>
   get_next_states self roll = Inr (map (apply_path self self) (selections self roll))"
  by (simp add: get_next_states_selection_paths selection_paths_well_formed comp_def)

lemma recur_helper_ill_formed:
  assumes "\<not> well_formed self" "r \<noteq> 0"
  shows "\<exists>e. recur_helper self r state res = Inl e"
proof -
  have "\<not> zip_strict_ok vals (front_row self) (back_row self)"
    using assms(1) by (simp add: zip_strict_ok_def well_formed_def vals_def)
  then show ?thesis
    using assms(2) by (subst recur_helper.simps) (simp split: sum.split)
qed

lemma get_next_states_Inr_well_formed:
  "get_next_states self roll = Inr ns \<Longrightarrow> roll \<noteq> 0 \<Longrightarrow> well_formed self"
  using recur_helper_ill_formed [of self roll self "[]"]
  by (auto simp: get_next_states_def)

lemma selections_sound:
  "q \<in> set (selections self r) \<Longrightarrow>
   sum_list q = r \<and> (\<forall>v\<in>set q. selectable self v) \<and> (r \<noteq> 0 \<longrightarrow> q \<noteq> [])"
proof (induction self r arbitrary: q rule: selections.induct)
  case (1 self r)
  show ?case
  proof (cases "r = 0")
    case True
    with "1.prems" show ?thesis by (simp add: selections.simps)
  next
    case False
    from "1.prems" False obtain v q' where v: "v \<in> set vals" "selectable self v \<and> v \<le> r"
      and q': "q' \<in> set (selections self (r - v))" and q: "q = v # q'"
      by (subst (asm) selections.simps) (auto split: if_splits)
    from "1.IH" [OF False v q'] v q show ?thesis by auto
  qed
qed

lemma distinct_concat_cons:
  assumes "distinct vs" "\<And>v. v \<in> set vs \<Longrightarrow> distinct (g v)"
  shows "distinct (concat (map (\<lambda>v. if P v then map ((#) v) (g v) else []) vs))"
  using assms
proof (induction vs)
  case Nil
  then show ?case by simp
next
  case (Cons a vs)
  then show ?case
    by (auto simp: distinct_map inj_on_def)
qed

lemma distinct_selections: "distinct (selections self r)"
proof (induction self r rule: selections.induct)
  case (1 self r)
  show ?case
  proof (cases "r = 0")
    case True
    then show ?thesis by (simp add: selections.simps)
  next
    case False
    have "distinct (concat (map (\<lambda>v. if selectable self v \<and> v \<le> r
            then map ((#) v) (if selectable self v \<and> v \<le> r then selections self (r - v) else [])
            else []) vals))"
      by (rule distinct_concat_cons) (auto simp: vals_def "1.IH" [OF False])
    then show ?thesis
      using False by (subst selections.simps) (simp cong: if_cong)
  qed
qed

section \<open>Successors keep flags and have fewer left\<close>

lemma flags_subset_refl: "flags_subset s s"
  by (simp add: flags_subset_def list_all2_conv_all_nth)

lemma flags_subset_trans: "flags_subset a b \<Longrightarrow> flags_subset b c \<Longrightarrow> flags_subset a c"
  by (auto simp: flags_subset_def list_all2_conv_all_nth)

lemma list_all2_update_True: "list_all2 (\<lambda>a b. a \<longrightarrow> b) xs (xs[i := True])"
  by (cases "i < length xs") (auto simp: list_all2_conv_all_nth nth_list_update)

lemma flags_subset_flip_at: "flags_subset state (flip_at self state v)"
  by (simp add: flags_subset_def flip_at_def list_all2_update_True list_all2_same)

lemma flags_subset_apply_path: "flags_subset state (apply_path self state q)"
proof (induction q arbitrary: state)
  case Nil
  then show ?case by (simp add: apply_path_def flags_subset_refl)
next
  case (Cons v q)
  have "flags_subset (flip_at self state v) (apply_path self (flip_at self state v) q)"
    by (rule Cons.IH)
  with flags_subset_flip_at [of state self v] show ?case
    by (auto simp: apply_path_def intro: flags_subset_trans)
qed

lemma well_formed_apply_path: "well_formed state \<Longrightarrow> well_formed (apply_path self state q)"
  by (induction q arbitrary: state) (simp_all add: apply_path_def well_formed_flip_at)

lemma count_list_update_le: "count_list (xs[i := True]) False \<le> count_list xs False"
proof (induction xs arbitrary: i)
  case Nil
  then show ?case by simp
next
  case (Cons x xs)
  then show ?case by (cases i) (auto intro: le_SucI)
qed

lemma count_list_update_less:
  "i < length xs \<Longrightarrow> \<not> xs ! i \<Longrightarrow> count_list (xs[i := True]) False < count_list xs False"
proof (induction xs arbitrary: i)
  case Nil
  then show ?case by simp
next
  case (Cons x xs)
  then show ?case by (cases i) auto
qed

lemma flips_remaining_flip_at_le: "flips_remaining (flip_at self state v) \<le> flips_remaining state"
  by (simp add: flips_remaining_def flip_at_def count_list_update_le)

lemma flips_remaining_flip_at_less:
  assumes "well_formed self" "selectable self v"
  shows "flips_remaining (flip_at self self v) < flips_remaining self"
proof -
  from assms have i: "nat (v - 1) < length (front_row self)" "nat (v - 1) < length (back_row self)"
    by (auto simp: well_formed_def selectable_def)
  show ?thesis
  proof (cases "front_row self ! nat (v - 1)")
    case True
    with assms(2) have "\<not> back_row self ! nat (v - 1)"
      by (simp add: selectable_def)
    with True count_list_update_less [OF i(2)] show ?thesis
      by (simp add: flips_remaining_def flip_at_def)
  next
    case False
    with count_list_update_less [OF i(1)] show ?thesis
      by (simp add: flips_remaining_def flip_at_def)
  qed
qed

lemma flips_remaining_apply_path_le:
  "flips_remaining (apply_path self state q) \<le> flips_remaining state"
proof (induction q arbitrary: state)
  case Nil
  then show ?case by (simp add: apply_path_def)
next
  case (Cons v q)
  have "flips_remaining (apply_path self (flip_at self state v) q)
        \<le> flips_remaining (flip_at self state v)"
    by (rule Cons.IH)
  with flips_remaining_flip_at_le [of self state v] show ?case
    by (simp add: apply_path_def)
qed

lemma successor_in_selections:
  assumes "get_next_states s roll = Inr ns" "roll \<noteq> 0" "s' \<in> set ns"
  shows "well_formed s \<and> (\<exists>q\<in>set (selections s roll). s' = apply_path s s q)"
proof -
  have wf: "well_formed s"
    using assms(1,2) by (rule get_next_states_Inr_well_formed)
  with assms(1,3) show ?thesis
    by (auto simp: get_next_states_well_formed)
qed

lemma successor_flips_remaining_less:
  assumes "get_next_states s roll = Inr ns" "roll \<noteq> 0" "s' \<in> set ns"
  shows "flips_remaining s' < flips_remaining s"
proof -
  from successor_in_selections [OF assms] obtain q where wf: "well_formed s"
    and q: "q \<in> set (selections s roll)" and s': "s' = apply_path s s q"
    by auto
  from selections_sound [OF q] assms(2) obtain v q' where qv: "q = v # q'" and v: "selectable s v"
    by (cases q) auto
  have "flips_remaining s' \<le> flips_remaining (flip_at s s v)"
    using flips_remaining_apply_path_le [of s "flip_at s s v" q'] by (simp add: s' qv apply_path_def)
  also have "\<dots> < flips_remaining s"
    using wf v by (rule flips_remaining_flip_at_less)
  finally show ?thesis .
qed

lemma dice_rolls_range: "roll \<in> set (dice_rolls 6) \<Longrightarrow> 2 \<le> roll \<and> roll \<le> 12"
  by (auto simp: dice_rolls_def)

section \<open>The search\<close>

text \<open>
  The recursion of \<open>find_all_games\<close> is well-founded: every successor has fewer unset
  flags than the state it comes from.
\<close>

termination find_all_games
proof (relation "measure flips_remaining")
  show "wf (measure flips_remaining)"
    by simp
next
  fix state :: GameState and roll :: int and next_states :: "GameState list"
    and next_state :: GameState
  assume "roll \<in> set (dice_rolls 6)" "get_next_states state roll = Inr next_states"
    "next_state \<in> set next_states"
  then show "(next_state, state) \<in> measure flips_remaining"
    using successor_flips_remaining_less [of state roll next_states next_state]
      dice_rolls_range [of roll] by simp
qed

declare find_all_games.simps [simp del]

section \<open>The result type is a commutative monoid\<close>

lemma add_assoc: "add (add a b) c = add a (add b c)"
  by (simp add: add_def)

lemma add_commute: "add a b = add b a"
  by (simp add: add_def)

lemma add_zero_right: "add a \<lparr>num_won = 0, num_lost = 0\<rparr> = a"
  by (simp add: add_def)

lemma add_zero_left: "add \<lparr>num_won = 0, num_lost = 0\<rparr> a = a"
  by (simp add: add_def)

text \<open>
  C9: addition of \<open>AllGamesResult\<close> values is associative and commutative, and the result
  with both counters zero is its identity on both sides.
\<close>

theorem AllGamesResult_add_comm_monoid:
  "add (add a b) c = add a (add b c) \<and> add a b = add b a
   \<and> add a \<lparr>num_won = 0, num_lost = 0\<rparr> = a \<and> add \<lparr>num_won = 0, num_lost = 0\<rparr> a = a"
  by (simp add: add_def)

section \<open>A roll of zero\<close>

text \<open>
  C10: for every state, \<open>get_next_states\<close> with roll total 0 returns exactly one successor,
  the state itself, and raises nothing.
\<close>

theorem get_next_states_zero: "get_next_states s 0 = Inr [s]"
  by (simp add: get_next_states_def recur_helper.simps)

section \<open>Selection paths, invariants and the tally\<close>

lemma selections_complete:
  "\<forall>v\<in>set q. selectable self v \<Longrightarrow> q \<in> set (selections self (sum_list q))"
proof (induction q)
  case Nil
  then show ?case by (simp add: selections.simps)
next
  case (Cons v q)
  then have v: "selectable self v" and q: "q \<in> set (selections self (sum_list q))"
    by simp_all
  have "\<forall>w\<in>set q. 0 \<le> w"
    using Cons.prems by (auto simp: selectable_def)
  then have nonneg: "0 \<le> sum_list q"
    by (simp add: sum_list_nonneg)
  from v have pos: "1 \<le> v" "v \<in> set vals"
    by (simp_all add: selectable_def vals_range)
  have "sum_list (v # q) \<noteq> 0"
    using pos nonneg by simp
  then show ?case
    using v pos nonneg q
    by (subst selections.simps) (auto intro!: bexI [where x = v])
qed

lemma sorted_concat_cons:
  fixes vs :: "int list"
  assumes "sorted_wrt (<) vs" "\<And>v. v \<in> set vs \<Longrightarrow> sorted_wrt (<) (g v)"
  shows "sorted_wrt (<) (concat (map (\<lambda>v. if P v then map ((#) v) (g v) else []) vs))"
  using assms
proof (induction vs)
  case Nil
  then show ?case by simp
next
  case (Cons a vs)
  then show ?case
    by (auto simp: sorted_wrt_append sorted_wrt_map split: if_splits)
qed

lemma sorted_selections: "sorted_wrt (<) (selections self r)"
proof (induction self r rule: selections.induct)
  case (1 self r)
  show ?case
  proof (cases "r = 0")
    case True
    then show ?thesis by (simp add: selections.simps)
  next
    case False
    have "sorted_wrt (<) vals"
      by (simp add: vals_def strict_sorted_iff)
    then have "sorted_wrt (<) (concat (map (\<lambda>v. if selectable self v \<and> v \<le> r
            then map ((#) v) (if selectable self v \<and> v \<le> r then selections self (r - v) else [])
            else []) vals))"
      by (rule sorted_concat_cons) (auto simp: "1.IH" [OF False])
    then show ?thesis
      using False by (subst selections.simps) (simp cong: if_cong)
  qed
qed

lemma selection_paths_Inr:
  assumes "selection_paths self roll = Inr ps"
  shows "(roll = 0 \<and> ps = [([], self)]) \<or>
         (well_formed self \<and> ps = map (\<lambda>q. (q, apply_path self self q)) (selections self roll))"
proof (cases "roll = 0")
  case True
  with assms show ?thesis
    by (simp add: selection_paths_def recur_paths.simps)
next
  case False
  from assms have "get_next_states self roll = Inr (map snd ps)"
    by (simp add: get_next_states_selection_paths)
  then have "well_formed self"
    using False by (rule get_next_states_Inr_well_formed)
  with assms show ?thesis
    by (simp add: selection_paths_well_formed)
qed

lemma selection_paths_fst:
  assumes "selection_paths self roll = Inr ps"
  shows "map fst ps = selections self roll"
  using selection_paths_Inr [OF assms] by (auto simp: selections.simps comp_def)

lemma nth_update_True: "i < length xs \<Longrightarrow> xs ! i \<Longrightarrow> xs[n := True] ! i"
  by (cases "n = i") auto

lemma front_before_back_flip_at:
  assumes "front_before_back state"
    and "list_all2 (\<lambda>a b. a \<longrightarrow> b) (front_row self) (front_row state)"
  shows "front_before_back (flip_at self state v) \<and>
         list_all2 (\<lambda>a b. a \<longrightarrow> b) (front_row self) (front_row (flip_at self state v))"
proof (cases "front_row self ! nat (v - 1)")
  case True
  have "list_all2 (\<lambda>f b. b \<longrightarrow> f) (front_row state) ((back_row state)[nat (v - 1) := True])"
  proof (cases "nat (v - 1) < length (back_row state)")
    case inside: True
    with assms True have "front_row state ! nat (v - 1)"
      by (auto simp: front_before_back_def list_all2_conv_all_nth)
    with assms(1) inside show ?thesis
      by (auto simp: front_before_back_def list_all2_conv_all_nth nth_list_update)
  next
    case False
    with assms(1) show ?thesis
      by (simp add: front_before_back_def list_update_beyond)
  qed
  with True assms(2) show ?thesis
    by (simp add: flip_at_def front_before_back_def)
next
  case False
  have "list_all2 (\<lambda>f b. b \<longrightarrow> f) ((front_row state)[nat (v - 1) := True]) (back_row state)"
    using assms(1)
    by (auto simp: front_before_back_def list_all2_conv_all_nth nth_update_True)
  moreover
  have "list_all2 (\<lambda>a b. a \<longrightarrow> b) (front_row self) ((front_row state)[nat (v - 1) := True])"
    using assms(2)
    by (auto simp: list_all2_conv_all_nth nth_update_True)
  ultimately show ?thesis
    using False by (simp add: flip_at_def front_before_back_def)
qed

lemma front_before_back_apply_path:
  assumes "front_before_back state"
    and "list_all2 (\<lambda>a b. a \<longrightarrow> b) (front_row self) (front_row state)"
  shows "front_before_back (apply_path self state q)"
  using assms
proof (induction q arbitrary: state)
  case Nil
  then show ?case by (simp add: apply_path_def)
next
  case (Cons v q)
  from front_before_back_flip_at [OF Cons.prems, of v]
  have "front_before_back (apply_path self (flip_at self state v) q)"
    by (intro Cons.IH) simp_all
  then show ?case by (simp add: apply_path_def)
qed

lemma successor_apply_path:
  assumes "get_next_states s roll = Inr ns" "s' \<in> set ns"
  shows "\<exists>q. s' = apply_path s s q"
proof (cases "roll = 0")
  case True
  with assms have "s' = s"
    by (auto simp: get_next_states_def recur_helper.simps)
  then have "s' = apply_path s s []"
    by (simp add: apply_path_def)
  then show ?thesis ..
next
  case False
  from successor_in_selections [OF assms(1) False assms(2)] show ?thesis
    by auto
qed

lemma flips_remaining_le_24: "well_formed s \<Longrightarrow> flips_remaining s \<le> 24"
  using count_le_length [of "front_row s" False] count_le_length [of "back_row s" False]
  by (simp add: flips_remaining_def well_formed_def)

lemma find_all_games_dom_all: "find_all_games_dom s"
proof -
  have "All find_all_games_dom"
  proof (rule "find_all_games.termination" [of "measure flips_remaining"])
    show "wf (measure flips_remaining)"
      by simp
  next
    fix state :: GameState and roll :: int and next_states :: "GameState list"
      and next_state :: GameState
    assume "roll \<in> set (dice_rolls 6)" "get_next_states state roll = Inr next_states"
      "next_state \<in> set next_states"
    then show "(next_state, state) \<in> measure flips_remaining"
      using successor_flips_remaining_less [of state roll next_states next_state]
        dice_rolls_range [of roll] by simp
  qed
  then show ?thesis ..
qed

lemma fold_add_all: "fold (\<lambda>r acc. add acc r) rs a = add a (add_all rs)"
proof (induction rs arbitrary: a)
  case Nil
  then show ?case by (simp add: add_all_def add_zero_right)
next
  case (Cons r rs)
  have "add_all (r # rs) = add r (add_all rs)"
    using Cons.IH [of "add \<lparr>num_won = 0, num_lost = 0\<rparr> r"]
    by (simp add: add_all_def add_zero_left)
  then show ?case
    using Cons.IH [of "add a r"] by (simp add: add_assoc)
qed

lemma fold_sum_add:
  assumes "\<And>x a. x \<in> set xs \<Longrightarrow> f x (Inr a) = Inr (add a (g x))"
  shows "fold f xs (Inr a) = Inr (add a (add_all (map g xs)))"
  using assms
proof (induction xs arbitrary: a)
  case Nil
  then show ?case by (simp add: add_all_def add_zero_right)
next
  case (Cons x xs)
  have "add_all (map g (x # xs)) = add (g x) (add_all (map g xs))"
    using fold_add_all [of "map g xs" "add \<lparr>num_won = 0, num_lost = 0\<rparr> (g x)"]
    by (simp add: add_all_def add_zero_left)
  with Cons show ?case
    by (simp add: add_assoc)
qed

lemma well_formed_successor:
  assumes "well_formed s" "s' \<in> set (expand s roll)"
  shows "well_formed s'"
  using assms by (auto simp: expand_def get_next_states_well_formed well_formed_apply_path)

lemma find_all_games_closed:
  "well_formed s \<Longrightarrow>
   find_all_games s =
     Inr (if is_won s then \<lparr>num_won = 1, num_lost = 0\<rparr>
          else add_all (map (roll_outcome s) (dice_rolls 6)))"
proof (induction s rule: find_all_games.induct)
  case (1 state)
  show ?case
  proof (cases "is_won state")
    case True
    then show ?thesis by (simp add: find_all_games.simps)
  next
    case False
    let ?inner = "\<lambda>next_state acc'.
                   case acc' of
                     Inl e \<Rightarrow> Inl e
                   | Inr result' \<Rightarrow>
                       (case find_all_games next_state of
                          Inl e \<Rightarrow> Inl e
                        | Inr games \<Rightarrow> Inr (add result' games))"
    let ?outer = "\<lambda>roll acc.
             case acc of
               Inl e \<Rightarrow> Inl e
             | Inr result \<Rightarrow>
                 (case get_next_states state roll of
                    Inl e \<Rightarrow> Inl e
                  | Inr next_states \<Rightarrow>
                      fold ?inner next_states
                        (Inr (if next_states = []
                              then add result \<lparr>num_won = 0, num_lost = 1\<rparr>
                              else result)))"
    have step: "?outer roll (Inr a) = Inr (add a (roll_outcome state roll))"
      if roll: "roll \<in> set (dice_rolls 6)" for roll a
    proof -
      have gns: "get_next_states state roll = Inr (expand state roll)"
        using "1.prems" by (simp add: expand_def get_next_states_well_formed)
      have games: "find_all_games s' = Inr (countAllGames s')" if "s' \<in> set (expand state roll)" for s'
      proof -
        have "well_formed s'"
          using "1.prems" that by (rule well_formed_successor)
        from "1.IH" [OF False roll gns that this] show ?thesis
          by (simp add: countAllGames_def)
      qed
      have "fold ?inner (expand state roll) (Inr b) =
            Inr (add b (add_all (map countAllGames (expand state roll))))" for b
        by (rule fold_sum_add) (simp add: games)
      then show ?thesis
        by (simp add: gns roll_outcome_def add_all_def add_zero_right)
    qed
    have "fold ?outer (dice_rolls 6) (Inr \<lparr>num_won = 0, num_lost = 0\<rparr>) =
          Inr (add \<lparr>num_won = 0, num_lost = 0\<rparr> (add_all (map (roll_outcome state) (dice_rolls 6))))"
      by (rule fold_sum_add) (rule step)
    then show ?thesis
      using False by (subst find_all_games.simps) (simp add: add_zero_left)
  qed
qed

section \<open>The properties of the specification\<close>

lemma selections_init_13: "[1, 12] \<in> set (selections GameState_init 13)"
proof -
  have "\<forall>v\<in>set [1, 12]. selectable GameState_init v"
    by (simp add: selectable_def GameState_init_def)
  from selections_complete [OF this] show ?thesis
    by simp
qed

lemma apply_path_init_1_12:
  "apply_path GameState_init GameState_init [1, 12] =
     \<lparr>front_row = True # replicate 10 False @ [True], back_row = replicate 12 False\<rparr>"
  by code_simp

lemma well_formed_init: "well_formed GameState_init"
  by (simp add: well_formed_def GameState_init_def)

lemma get_next_states_init_13:
  "get_next_states GameState_init 13 =
     Inr (map (apply_path GameState_init GameState_init) (selections GameState_init 13))"
  using well_formed_init by (rule get_next_states_well_formed)

text \<open>
  C3, as stated, fails: from the initial state a roll total of 13 has successors, so the
  returned list is not empty.
\<close>

theorem get_next_states_init_13_not_empty: "get_next_states GameState_init 13 \<noteq> Inr []"
  using selections_init_13 by (auto simp: get_next_states_init_13)

text \<open>
  C3, amended: \<open>get_next_states\<close> on the initial state with roll total 13 raises nothing and
  returns a non-empty list; one of its successors is the state with tiles 1 and 12 flipped
  in front and nothing else (1 + 12 = 13).
\<close>

theorem get_next_states_init_13_has_1_12:
  "\<exists>ns. get_next_states GameState_init 13 = Inr ns \<and> ns \<noteq> [] \<and>
     \<lparr>front_row = True # replicate 10 False @ [True], back_row = replicate 12 False\<rparr> \<in> set ns"
proof -
  have "apply_path GameState_init GameState_init [1, 12]
        \<in> set (map (apply_path GameState_init GameState_init) (selections GameState_init 13))"
    unfolding set_map using selections_init_13 by (rule imageI)
  then show ?thesis
    unfolding apply_path_init_1_12 get_next_states_init_13 by auto
qed

text \<open>
  C1: what the code does on the initial state with roll total 3. The first recorded path
  selects tile 1 three times, and its state has only the front flag of tile 1 set: the
  second and third selections flip nothing, and the back flag of tile 1 stays unset. The
  claim asks for the back flag on the second selection and for no third selection.
\<close>

theorem selection_paths_init_roll_3:
  "selection_paths GameState_init 3 =
     Inr [([1, 1, 1], \<lparr>front_row = True # replicate 11 False, back_row = replicate 12 False\<rparr>),
          ([1, 2], \<lparr>front_row = True # True # replicate 10 False, back_row = replicate 12 False\<rparr>),
          ([2, 1], \<lparr>front_row = True # True # replicate 10 False, back_row = replicate 12 False\<rparr>),
          ([3], \<lparr>front_row = False # False # True # replicate 9 False,
                  back_row = replicate 12 False\<rparr>)] \<and>
   get_next_states GameState_init 3 =
     Inr [\<lparr>front_row = True # replicate 11 False, back_row = replicate 12 False\<rparr>,
          \<lparr>front_row = True # True # replicate 10 False, back_row = replicate 12 False\<rparr>,
          \<lparr>front_row = True # True # replicate 10 False, back_row = replicate 12 False\<rparr>,
          \<lparr>front_row = False # False # True # replicate 9 False, back_row = replicate 12 False\<rparr>]"
  by code_simp

text \<open>
  C2, as stated, fails: on the initial state with roll total 3 two recorded selection paths
  flip the same multiset of tile values (1 then 2, and 2 then 1), and one recorded path is
  not in increasing order.
\<close>

theorem selection_paths_same_multiset:
  "\<not> distinct (map (mset \<circ> fst) (projr (selection_paths GameState_init 3))) \<and>
   \<not> list_all (sorted \<circ> fst) (projr (selection_paths GameState_init 3))"
  by code_simp

text \<open>
  C2, amended: every level of the backtracking tries the tile values 1..12 in increasing
  order, so the selection paths of one call are recorded in strictly increasing
  lexicographic order, and no two recorded paths are the same sequence of tile values.
\<close>

theorem selection_paths_lexicographic:
  "selection_paths self roll = Inr ps \<Longrightarrow>
   sorted_wrt (<) (map fst ps) \<and> distinct (map fst ps)"
  by (simp add: selection_paths_fst sorted_selections distinct_selections)

text \<open>The paths of the initial state with roll total 2, in this order.\<close>

theorem selection_paths_lexicographic_witness:
  "selection_paths GameState_init 2 =
     Inr [([1, 1], \<lparr>front_row = True # replicate 11 False, back_row = replicate 12 False\<rparr>),
          ([2], \<lparr>front_row = False # True # replicate 10 False, back_row = replicate 12 False\<rparr>)] \<and>
   sorted_wrt (<) [[1, 1], [2 :: int]] \<and> distinct [[1, 1], [2 :: int]]"
proof -
  have e: "selection_paths GameState_init 2 =
     Inr [([1, 1], \<lparr>front_row = True # replicate 11 False, back_row = replicate 12 False\<rparr>),
          ([2], \<lparr>front_row = False # True # replicate 10 False, back_row = replicate 12 False\<rparr>)]"
    by code_simp
  from selection_paths_lexicographic [OF e] e show ?thesis
    by simp
qed

text \<open>
  C5: when a state has its back flags set only where the front flag is set, so has every
  successor that \<open>get_next_states\<close> returns for it, whatever the roll total.
\<close>

theorem get_next_states_front_before_back:
  assumes "front_before_back s" "get_next_states s roll = Inr ns" "s' \<in> set ns"
  shows "front_before_back s'"
proof -
  from successor_apply_path [OF assms(2,3)] obtain q where "s' = apply_path s s q" ..
  moreover have "list_all2 (\<lambda>a b. a \<longrightarrow> b) (front_row s) (front_row s)"
    by (simp add: list_all2_same)
  ultimately show ?thesis
    using assms(1) by (simp add: front_before_back_apply_path)
qed

text \<open>
  From the state with tile 1 flipped in front, roll total 2 flips tile 1 in back: the
  successor keeps the invariant.
\<close>

theorem get_next_states_front_before_back_witness:
  "front_before_back \<lparr>front_row = True # replicate 11 False, back_row = replicate 12 False\<rparr> \<and>
   get_next_states \<lparr>front_row = True # replicate 11 False, back_row = replicate 12 False\<rparr> 2 =
     Inr [\<lparr>front_row = True # replicate 11 False, back_row = True # replicate 11 False\<rparr>,
          \<lparr>front_row = True # True # replicate 10 False, back_row = replicate 12 False\<rparr>] \<and>
   front_before_back \<lparr>front_row = True # replicate 11 False, back_row = True # replicate 11 False\<rparr>"
proof -
  let ?s = "\<lparr>front_row = True # replicate 11 False, back_row = replicate 12 False\<rparr>"
  let ?a = "\<lparr>front_row = True # replicate 11 False, back_row = True # replicate 11 False\<rparr>"
  let ?b = "\<lparr>front_row = True # True # replicate 10 False, back_row = replicate 12 False\<rparr>"
  have h: "front_before_back ?s"
    by code_simp
  have e: "get_next_states ?s 2 = Inr [?a, ?b]"
    by code_simp
  have m: "?a \<in> set [?a, ?b]"
    by simp
  from get_next_states_front_before_back [OF h e m] h e show ?thesis
    by simp
qed

text \<open>
  C6: every successor that \<open>get_next_states\<close> returns has every flag of the state it was
  called on: no flag that is set becomes unset, in either row.
\<close>

theorem get_next_states_flags_subset:
  assumes "get_next_states s roll = Inr ns" "s' \<in> set ns"
  shows "flags_subset s s'"
proof -
  from successor_apply_path [OF assms] obtain q where "s' = apply_path s s q" ..
  then show ?thesis
    by (simp add: flags_subset_apply_path)
qed

text \<open>The second successor of the state with tile 1 flipped in front, for roll total 2.\<close>

theorem get_next_states_flags_subset_witness:
  "get_next_states \<lparr>front_row = True # replicate 11 False, back_row = replicate 12 False\<rparr> 2 =
     Inr [\<lparr>front_row = True # replicate 11 False, back_row = True # replicate 11 False\<rparr>,
          \<lparr>front_row = True # True # replicate 10 False, back_row = replicate 12 False\<rparr>] \<and>
   flags_subset \<lparr>front_row = True # replicate 11 False, back_row = replicate 12 False\<rparr>
     \<lparr>front_row = True # True # replicate 10 False, back_row = replicate 12 False\<rparr>"
proof -
  let ?s = "\<lparr>front_row = True # replicate 11 False, back_row = replicate 12 False\<rparr>"
  let ?a = "\<lparr>front_row = True # replicate 11 False, back_row = True # replicate 11 False\<rparr>"
  let ?b = "\<lparr>front_row = True # True # replicate 10 False, back_row = replicate 12 False\<rparr>"
  have e: "get_next_states ?s 2 = Inr [?a, ?b]"
    by code_simp
  have m: "?b \<in> set [?a, ?b]"
    by simp
  from get_next_states_flags_subset [OF e m] e show ?thesis
    by simp
qed

text \<open>
  C7: \<open>find_all_games\<close> terminates on every state: every state is in the domain of the
  recursion. Every state it recurses on, a successor for one of the dice outcomes, has
  strictly fewer unset flags than the state itself, of which there are at most 24.
\<close>

theorem find_all_games_terminates:
  "find_all_games_dom s \<and>
   (\<forall>roll\<in>set (dice_rolls 6). \<forall>ns. get_next_states s roll = Inr ns \<longrightarrow>
      (\<forall>s'\<in>set ns. flips_remaining s' < flips_remaining s \<and> flips_remaining s \<le> 24))"
proof (intro conjI ballI allI impI)
  show "find_all_games_dom s"
    by (rule find_all_games_dom_all)
next
  fix roll ns s'
  assume roll: "roll \<in> set (dice_rolls 6)" and ns: "get_next_states s roll = Inr ns"
    and s': "s' \<in> set ns"
  from dice_rolls_range [OF roll] have nz: "roll \<noteq> 0"
    by simp
  from ns nz s' show "flips_remaining s' < flips_remaining s"
    by (rule successor_flips_remaining_less)
  from ns nz have "well_formed s"
    by (rule get_next_states_Inr_well_formed)
  then show "flips_remaining s \<le> 24"
    by (rule flips_remaining_le_24)
qed

text \<open>The first successor of the initial state for the dice outcome 1 + 1.\<close>

theorem find_all_games_terminates_witness:
  "find_all_games_dom GameState_init \<and> 2 \<in> set (dice_rolls 6) \<and>
   get_next_states GameState_init 2 =
     Inr [\<lparr>front_row = True # replicate 11 False, back_row = replicate 12 False\<rparr>,
          \<lparr>front_row = False # True # replicate 10 False, back_row = replicate 12 False\<rparr>] \<and>
   flips_remaining \<lparr>front_row = True # replicate 11 False, back_row = replicate 12 False\<rparr>
     < flips_remaining GameState_init \<and>
   flips_remaining GameState_init \<le> 24"
proof -
  let ?a = "\<lparr>front_row = True # replicate 11 False, back_row = replicate 12 False\<rparr>"
  let ?b = "\<lparr>front_row = False # True # replicate 10 False, back_row = replicate 12 False\<rparr>"
  have r: "2 \<in> set (dice_rolls 6)"
    by code_simp
  have e: "get_next_states GameState_init 2 = Inr [?a, ?b]"
    by code_simp
  have m: "?a \<in> set [?a, ?b]"
    by simp
  from find_all_games_terminates [of GameState_init]
  have "find_all_games_dom GameState_init"
    and "\<forall>roll\<in>set (dice_rolls 6). \<forall>ns. get_next_states GameState_init roll = Inr ns \<longrightarrow>
      (\<forall>s'\<in>set ns. flips_remaining s' < flips_remaining GameState_init \<and>
         flips_remaining GameState_init \<le> 24)"
    by blast+
  with r e m show ?thesis
    by blast
qed

text \<open>
  C8: on a won state \<open>find_all_games\<close> returns one win and no loss; no roll is looked at.
\<close>

theorem find_all_games_won:
  "is_won s \<Longrightarrow> find_all_games s = Inr \<lparr>num_won = 1, num_lost = 0\<rparr>"
  by (simp add: find_all_games.simps)

text \<open>The state with all 24 flags set.\<close>

theorem find_all_games_won_witness:
  "is_won \<lparr>front_row = replicate 12 True, back_row = replicate 12 True\<rparr> \<and>
   find_all_games \<lparr>front_row = replicate 12 True, back_row = replicate 12 True\<rparr> =
     Inr \<lparr>num_won = 1, num_lost = 0\<rparr>"
proof -
  have h: "is_won \<lparr>front_row = replicate 12 True, back_row = replicate 12 True\<rparr>"
    by code_simp
  from find_all_games_won [OF h] h show ?thesis
    by simp
qed

text \<open>
  C4: on a state of twelve tiles per row that is not won, \<open>find_all_games\<close> raises nothing
  and returns the sum, over the 36 ordered pairs \<open>(a, b)\<close> of faces 1..6, of what the outcome
  \<open>a + b\<close> adds: one loss when the expansion is empty, and otherwise the result of
  \<open>find_all_games\<close> on every successor. Here \<open>expand\<close> and \<open>countAllGames\<close> are what
  \<open>get_next_states\<close> and the recursive calls return.
\<close>

theorem find_all_games_not_won:
  assumes "well_formed s" "\<not> is_won s"
  shows "find_all_games s =
           Inr (add_all (map (\<lambda>(a, b). roll_outcome s (a + b)) (List.product [1..6] [1..6]))) \<and>
         dice_rolls 6 = map (\<lambda>(a, b). a + b) (List.product [1..6] [1..6]) \<and>
         length (List.product [1..6] [1..6 :: int]) = 36 \<and>
         (\<forall>roll. get_next_states s roll = Inr (expand s roll)) \<and>
         (\<forall>roll. \<forall>s'\<in>set (expand s roll). find_all_games s' = Inr (countAllGames s'))"
proof (intro conjI allI ballI)
  have "map (roll_outcome s) (dice_rolls 6) =
        map (\<lambda>(a, b). roll_outcome s (a + b)) (List.product [1..6] [1..6])"
    by (simp add: dice_rolls_def comp_def case_prod_unfold)
  with find_all_games_closed [OF assms(1)] assms(2)
  show "find_all_games s =
          Inr (add_all (map (\<lambda>(a, b). roll_outcome s (a + b)) (List.product [1..6] [1..6])))"
    by simp
next
  show "dice_rolls 6 = map (\<lambda>(a, b). a + b) (List.product [1..6] [1..6])"
    by (simp add: dice_rolls_def)
next
  show "length (List.product [1..6] [1..6 :: int]) = 36"
    by simp
next
  fix roll
  show gns: "get_next_states s roll = Inr (expand s roll)"
    using assms(1) by (simp add: expand_def get_next_states_well_formed)
  fix s'
  assume "s' \<in> set (expand s roll)"
  with assms(1) have "well_formed s'"
    by (rule well_formed_successor)
  from find_all_games_closed [OF this] show "find_all_games s' = Inr (countAllGames s')"
    by (simp add: countAllGames_def)
qed

text \<open>
  The state with every flag set but the back flag of tile 12: only the outcome 6 + 6 has a
  successor, the won state, and the other 35 outcomes are losses.
\<close>

theorem find_all_games_not_won_witness:
  "well_formed \<lparr>front_row = replicate 12 True, back_row = replicate 11 True @ [False]\<rparr> \<and>
   \<not> is_won \<lparr>front_row = replicate 12 True, back_row = replicate 11 True @ [False]\<rparr> \<and>
   add_all (map (\<lambda>(a, b).
       roll_outcome \<lparr>front_row = replicate 12 True, back_row = replicate 11 True @ [False]\<rparr> (a + b))
     (List.product [1..6] [1..6])) = \<lparr>num_won = 1, num_lost = 35\<rparr>"
proof -
  let ?s = "\<lparr>front_row = replicate 12 True, back_row = replicate 11 True @ [False]\<rparr>"
  have w: "well_formed ?s"
    by (simp add: well_formed_def)
  have n: "\<not> is_won ?s"
    by code_simp
  have e: "find_all_games ?s = Inr \<lparr>num_won = 1, num_lost = 35\<rparr>"
    by code_simp
  from find_all_games_not_won [OF w n] e w n show ?thesis
    by simp
qed

end
